theory Spec2Isabelle
  imports Complex_Main
begin

section \<open>Text of the PDF-to-audiobook converter\<close>

text \<open>
  The program is Python 3: a \<open>str\<close> is a sequence of Unicode code points, and
  \<open>len\<close>, slicing, \<open>rfind\<close> and the regular expressions all count code points.
  A character is therefore a natural number (its code point) and a text a list of them.
  \<open>ustr\<close> reads an ASCII literal as such a text.
\<close>

type_synonym uchar = nat
type_synonym ustring = "uchar list"

definition ustr :: "string \<Rightarrow> ustring" where
  "ustr s = map of_char s"

text \<open>
  The characters Python counts as whitespace in a \<open>str\<close>: \<open>str.strip()\<close> without
  argument and the class \<open>\s\<close> of \<open>re\<close> on a \<open>str\<close> pattern both use this set
  (U+0009..U+000D, U+001C..U+0020, U+0085, U+00A0, U+1680, U+2000..U+200A, U+2028, U+2029,
  U+202F, U+205F, U+3000).
\<close>

definition is_space :: "uchar \<Rightarrow> bool" where
  "is_space c \<longleftrightarrow>
     (9 \<le> c \<and> c \<le> 13) \<or> (28 \<le> c \<and> c \<le> 32) \<or> c = 133 \<or> c = 160 \<or> c = 5760 \<or>
     (8192 \<le> c \<and> c \<le> 8202) \<or> c = 8232 \<or> c = 8233 \<or> c = 8239 \<or> c = 8287 \<or> c = 12288"

text \<open>\<open>text.lstrip()\<close>, \<open>text.rstrip()\<close> and \<open>text.strip()\<close>.\<close>

definition lstrip :: "ustring \<Rightarrow> ustring" where
  "lstrip s = dropWhile is_space s"

definition rstrip :: "ustring \<Rightarrow> ustring" where
  "rstrip s = rev (dropWhile is_space (rev s))"

definition strip :: "ustring \<Rightarrow> ustring" where
  "strip s = rstrip (lstrip s)"

subsection \<open>Slicing and searching\<close>

text \<open>
  The bound of a slice \<open>text[:k]\<close> or \<open>text[k:]\<close> and the \<open>end\<close> argument of
  \<open>rfind\<close>: a negative bound counts from the end of the text, and every bound is
  clamped to \<open>0..len(text)\<close>.
\<close>

definition slice_bound :: "nat \<Rightarrow> int \<Rightarrow> nat" where
  "slice_bound n k = (if k < 0 then nat (int n + k) else min (nat k) n)"

definition slice_to :: "ustring \<Rightarrow> int \<Rightarrow> ustring" where
  "slice_to s k = take (slice_bound (length s) k) s"

definition slice_from :: "ustring \<Rightarrow> int \<Rightarrow> ustring" where
  "slice_from s k = drop (slice_bound (length s) k) s"

text \<open>
  \<open>last_index c s\<close> is the highest index of \<open>c\<close> in \<open>s\<close>, or \<open>-1\<close>; the scan
  carries the current index and the best index found so far.
\<close>

fun last_index_from :: "uchar \<Rightarrow> ustring \<Rightarrow> int \<Rightarrow> int \<Rightarrow> int" where
  "last_index_from c [] i best = best"
| "last_index_from c (x # xs) i best =
     last_index_from c xs (i + 1) (if x = c then i else best)"

text \<open>\<open>text.rfind(c, 0, e)\<close> for a one-character \<open>c\<close>.\<close>

definition rfind :: "ustring \<Rightarrow> uchar \<Rightarrow> int \<Rightarrow> int" where
  "rfind s c e = last_index_from c (slice_to s e) 0 (- 1)"

subsection \<open>The chunker: \<open>split_text\<close>\<close>

text \<open>
  The boundary characters in the order of the source's list:
  \<open>. ! ? ;\<close>, newline, and the full-width U+3002, U+FF01, U+FF1F, U+FF1B.
\<close>

definition boundaries :: "uchar list" where
  "boundaries = [46, 33, 63, 59, 10, 12290, 65281, 65311, 65307]"

text \<open>
  The \<open>for boundary in [...]\<close> loop with its \<open>break\<close>: \<open>split_index\<close> starts as
  \<open>max_chars\<close> and the first boundary whose \<open>rfind\<close> is positive sets it.
\<close>

fun find_split :: "uchar list \<Rightarrow> ustring \<Rightarrow> int \<Rightarrow> int" where
  "find_split [] s max_chars = max_chars"
| "find_split (b # bs) s max_chars =
     (let index = rfind s b max_chars
      in if index > 0 then index + 1 else find_split bs s max_chars)"

definition split_index :: "ustring \<Rightarrow> int \<Rightarrow> int" where
  "split_index s max_chars = find_split boundaries s max_chars"

text \<open>
  The \<open>while text:\<close> loop. \<open>max_chars\<close> is a Python \<open>int\<close>, so any integer can
  be passed. The loop need not end (it does not for \<open>max_chars = 0\<close>), so it is a partial
  function: \<open>None\<close> is the run that never returns.
\<close>

partial_function (option) split_loop :: "ustring list \<Rightarrow> ustring \<Rightarrow> int \<Rightarrow> ustring list option" where
  "split_loop chunks s max_chars =
     (if s = [] then Some chunks
      else if int (length s) \<le> max_chars then Some (chunks @ [s])
      else split_loop (chunks @ [slice_to s (split_index s max_chars)])
             (strip (slice_from s (split_index s max_chars))) max_chars)"

declare split_loop.simps [code]

definition split_text :: "ustring \<Rightarrow> int \<Rightarrow> ustring list option" where
  "split_text s max_chars = split_loop [] s max_chars"

subsection \<open>The chunker as the specification words it\<close>

text \<open>
  These definitions follow the words of the specification, not the code; the code is
  compared with them below.

  \<open>rightmost b s n\<close> is the right-most occurrence of \<open>b\<close> within the first \<open>n\<close>
  characters of \<open>s\<close>; a boundary character is \<open>usable\<close> if it has an occurrence there at
  a position greater than 0; \<open>spec_split_point\<close> takes the first usable boundary
  character in the order of priority and splits right after its right-most occurrence,
  or at \<open>n\<close> when there is none.
\<close>

definition rightmost :: "uchar \<Rightarrow> ustring \<Rightarrow> nat \<Rightarrow> nat option" where
  "rightmost b s n =
     (case filter (\<lambda>i. s ! i = b) (rev [0..<min n (length s)]) of
        [] \<Rightarrow> None
      | i # _ \<Rightarrow> Some i)"

definition usable :: "ustring \<Rightarrow> nat \<Rightarrow> uchar \<Rightarrow> bool" where
  "usable s n b = (case rightmost b s n of None \<Rightarrow> False | Some i \<Rightarrow> 0 < i)"

definition spec_split_point :: "ustring \<Rightarrow> nat \<Rightarrow> nat" where
  "spec_split_point s n =
     (case List.find (usable s n) boundaries of
        None \<Rightarrow> n
      | Some b \<Rightarrow> (case rightmost b s n of None \<Rightarrow> n | Some i \<Rightarrow> i + 1))"

text \<open>
  \<open>blank g\<close>: \<open>g\<close> is made of whitespace only. \<open>weave chunks gaps\<close> is the text made of
  the chunks in order, each followed by its gap.
\<close>

definition blank :: "ustring \<Rightarrow> bool" where
  "blank g = list_all is_space g"

definition weave :: "ustring list \<Rightarrow> ustring list \<Rightarrow> ustring" where
  "weave chunks gaps = concat (map2 (@) chunks gaps)"

subsection \<open>The cleaner: \<open>clean_text\<close>\<close>

text \<open>
  Each \<open>re.sub\<close> of \<open>clean_text\<close> is one pass over the text: the matches are taken
  from left to right, do not overlap, and every quantifier is greedy.

  \<open>re.sub(r'\s+', ' ', text)\<close>: a maximal run of whitespace becomes one space.
\<close>

function sub_spaces :: "ustring \<Rightarrow> ustring" where
  "sub_spaces [] = []"
| "sub_spaces (c # cs) =
     (if is_space c then 32 # sub_spaces (dropWhile is_space cs) else c # sub_spaces cs)"
  by pat_completeness auto
termination
  by (relation "measure length") (auto simp: length_dropWhile_le le_imp_less_Suc)

text \<open>\<open>re.sub(r'[^\x20-\x7E]', ' ', text)\<close>: every character outside 0x20..0x7E becomes a space.\<close>

definition printable :: "uchar \<Rightarrow> bool" where
  "printable c \<longleftrightarrow> 32 \<le> c \<and> c \<le> 126"

definition sub_nonprintable :: "ustring \<Rightarrow> ustring" where
  "sub_nonprintable s = map (\<lambda>c. if printable c then c else 32) s"

text \<open>
  \<open>re.sub(r'\s*-\s*', '-', text)\<close>. At a position, \<open>\s*\<close> takes the whole run of
  whitespace there and the match needs a hyphen right after it (giving whitespace back
  cannot help: no whitespace character is a hyphen); the match then takes the whitespace
  after the hyphen. Where there is no match the character is kept and the scan moves on
  by one.
\<close>

function sub_hyphens :: "ustring \<Rightarrow> ustring" where
  "sub_hyphens [] = []"
| "sub_hyphens (c # cs) =
     (case dropWhile is_space (c # cs) of
        [] \<Rightarrow> c # sub_hyphens cs
      | h # r \<Rightarrow> if h = 45 then 45 # sub_hyphens (dropWhile is_space r)
                 else c # sub_hyphens cs)"
  by pat_completeness auto
termination
proof (relation "measure length", goal_cases)
  case 1
  show ?case by simp
next
  case (2 c cs)
  show ?case by simp
next
  case (3 c cs h r)
  have "length (dropWhile is_space r) \<le> length r"
    by (rule length_dropWhile_le)
  moreover have "length (h # r) \<le> length (c # cs)"
    using length_dropWhile_le [of is_space "c # cs"] 3(1) by simp
  ultimately show ?case by simp
next
  case (4 c cs h r)
  show ?case by simp
qed

text \<open>
  \<open>re.sub(r'\bPage \d+\b', '', text)\<close>. The pass runs on the result of
  \<open>sub_nonprintable\<close>, so only the code points 0x20..0x7E reach it; on those, the
  classes \<open>\d\<close> and \<open>\w\<close> of \<open>re\<close> are \<open>[0-9]\<close> and \<open>[A-Za-z0-9_]\<close>, and
  that is what \<open>is_digit\<close> and \<open>is_word\<close> decide.

  \<open>match_page w s\<close> is the match at the head of \<open>s\<close>, where \<open>w\<close> tells whether the
  character before \<open>s\<close> is a word character: \<open>\b\<close> before the \<open>P\<close> needs that it is
  not; \<open>\d+\<close> takes the whole run of digits, and the final \<open>\b\<close> needs the end of the
  text or a non-word character after the run (a shorter run would end between two
  digits, where there is no word boundary). The result is the text after the match.
\<close>

definition is_digit :: "uchar \<Rightarrow> bool" where
  "is_digit c \<longleftrightarrow> 48 \<le> c \<and> c \<le> 57"

definition is_word :: "uchar \<Rightarrow> bool" where
  "is_word c \<longleftrightarrow> is_digit c \<or> (65 \<le> c \<and> c \<le> 90) \<or> (97 \<le> c \<and> c \<le> 122) \<or> c = 95"

definition match_page :: "bool \<Rightarrow> ustring \<Rightarrow> ustring option" where
  "match_page w s =
     (if \<not> w \<and> take 5 s = [80, 97, 103, 101, 32] then
        (let r = drop 5 s; rest = dropWhile is_digit r
         in if takeWhile is_digit r \<noteq> [] \<and> (case rest of [] \<Rightarrow> True | x # _ \<Rightarrow> \<not> is_word x)
            then Some rest else None)
      else None)"

function sub_pages :: "bool \<Rightarrow> ustring \<Rightarrow> ustring" where
  "sub_pages w [] = []"
| "sub_pages w (c # cs) =
     (case match_page w (c # cs) of
        Some rest \<Rightarrow> sub_pages True rest
      | None \<Rightarrow> c # sub_pages (is_word c) cs)"
  by pat_completeness auto
termination
proof (relation "measure (\<lambda>(w, s). length s)", goal_cases)
  case 1
  show ?case by simp
next
  case (2 w c cs)
  show ?case by simp
next
  case (3 w c cs rest)
  then have "rest = dropWhile is_digit (drop 5 (c # cs))" and "take 5 (c # cs) = [80, 97, 103, 101, 32]"
    by (auto simp: match_page_def Let_def split: if_splits)
  moreover have "length (dropWhile is_digit (drop 5 (c # cs))) \<le> length (drop 5 (c # cs))"
    by (rule length_dropWhile_le)
  ultimately show ?case by simp
qed

text \<open>
  The two substitutions of the curly quotation marks: U+201C and U+201D become the
  straight double quote 0x22, then U+2018 and U+2019 become the apostrophe 0x27.
\<close>

definition sub_double_quotes :: "ustring \<Rightarrow> ustring" where
  "sub_double_quotes s = map (\<lambda>c. if c = 8220 \<or> c = 8221 then 34 else c) s"

definition sub_single_quotes :: "ustring \<Rightarrow> ustring" where
  "sub_single_quotes s = map (\<lambda>c. if c = 8216 \<or> c = 8217 then 39 else c) s"

text \<open>
  \<open>clean_text\<close>: the six substitutions in the order of the source, then \<open>strip()\<close>.
  \<open>before_quotes\<close> is the text as it reaches the two quotation-mark substitutions. No
  step raises on a \<open>str\<close>, so the handler of the source is never entered.
\<close>

definition before_quotes :: "ustring \<Rightarrow> ustring" where
  "before_quotes s = sub_pages False (sub_hyphens (sub_nonprintable (sub_spaces s)))"

definition clean_text :: "ustring \<Rightarrow> ustring" where
  "clean_text s = strip (sub_single_quotes (sub_double_quotes (before_quotes s)))"

text \<open>
  What a cleaned text must look like for a second cleaning to change nothing: no two
  spaces in a row (\<open>single_spaced\<close>), no space next to a hyphen (\<open>hyphens_tight\<close>) and
  no match of the page-number pattern anywhere (\<open>page_free\<close>).
\<close>

fun single_spaced :: "ustring \<Rightarrow> bool" where
  "single_spaced (a # b # cs) = (\<not> (a = 32 \<and> b = 32) \<and> single_spaced (b # cs))"
| "single_spaced cs = True"

fun hyphens_tight :: "ustring \<Rightarrow> bool" where
  "hyphens_tight (a # b # cs) =
     (\<not> (a = 32 \<and> b = 45) \<and> \<not> (a = 45 \<and> b = 32) \<and> hyphens_tight (b # cs))"
| "hyphens_tight cs = True"

fun page_free :: "bool \<Rightarrow> ustring \<Rightarrow> bool" where
  "page_free w [] = True"
| "page_free w (c # cs) = (match_page w (c # cs) = None \<and> page_free (is_word c) cs)"

definition tidy :: "ustring \<Rightarrow> bool" where
  "tidy s \<longleftrightarrow> single_spaced s \<and> hyphens_tight s \<and> page_free False s"

section \<open>The conversion pipeline\<close>

text \<open>
  The pipeline reads a PDF, calls the speech service, decodes and writes audio files and
  draws a progress window. What these calls return is not decided by the program, so it
  is a parameter: the record \<open>env\<close> holds the outcome of each call, an exception or a
  value. \<open>'a\<close> is the type of a decoded \<open>AudioSegment\<close>.

  An exception is a value of \<open>exn\<close> with its message; \<open>exn_str\<close> is \<open>str(e)\<close>.
\<close>

datatype exn =
    RuntimeError ustring
  | FileNotFoundError ustring
  | IndexError ustring
  | OtherError ustring

fun exn_str :: "exn \<Rightarrow> ustring" where
  "exn_str (RuntimeError m) = m"
| "exn_str (FileNotFoundError m) = m"
| "exn_str (IndexError m) = m"
| "exn_str (OtherError m) = m"

record 'a env =
  path_exists :: "ustring \<Rightarrow> bool"
  pdf_pages :: "ustring \<Rightarrow> exn + ustring list"
  ffmpeg_available :: bool
  progress_window :: "exn option"
  tts_save :: "ustring \<Rightarrow> ustring \<Rightarrow> exn + ustring \<times> nat"
  from_mp3 :: "ustring \<Rightarrow> exn + 'a"
  append_audio :: "'a \<Rightarrow> 'a \<Rightarrow> 'a"
  export_mp3 :: "'a \<Rightarrow> ustring \<Rightarrow> exn + nat"
  prepare_output_dir :: "ustring \<Rightarrow> exn option"
  adjust_speed :: "ustring \<Rightarrow> real \<Rightarrow> exn option"

text \<open>
  \<^item> \<open>path_exists p\<close>: \<open>os.path.exists(p)\<close> for the input PDF.
  \<^item> \<open>pdf_pages p\<close>: opening and reading the PDF, an exception or \<open>extract_text()\<close> of
    each page in order (the empty text for a page that has none).
  \<^item> \<open>ffmpeg_available\<close>: the global \<open>FFMPEG_AVAILABLE\<close>.
  \<^item> \<open>progress_window\<close>: the exception raised while the progress window is built, if any.
  \<^item> \<open>tts_save lang chunk\<close>: \<open>gTTS(...)\<close> and \<open>tts.save\<close> on a fresh temporary file, an
    exception or the path of the file and its size afterwards (0 when it is missing).
  \<^item> \<open>from_mp3 path\<close>: \<open>AudioSegment.from_mp3\<close>.
  \<^item> \<open>append_audio\<close>: \<open>+\<close> of two segments.
  \<^item> \<open>export_mp3 audio path\<close>: \<open>export\<close>, an exception or the size of the file at
    \<open>path\<close> afterwards (0 when it is missing).
  \<^item> \<open>prepare_output_dir path\<close>: the block of \<open>main_cli\<close> that creates the directory of
    the output file when needed, with the exception of \<open>os.makedirs\<close> if it fails.
  \<^item> \<open>adjust_speed path f\<close>: the block that reloads the exported file, rescales its
    frame rate by \<open>f\<close> and exports it again, with the exception it raises if it fails.
\<close>

subsection \<open>\<open>extract_text_from_pdf\<close>\<close>

definition extract_text_from_pdf :: "'a env \<Rightarrow> ustring \<Rightarrow> exn + ustring" where
  "extract_text_from_pdf e pdf_path =
     (case pdf_pages e pdf_path of
        Inl x \<Rightarrow> Inl (RuntimeError (ustr ''PDF extraction failed: '' @ exn_str x))
      | Inr pages \<Rightarrow> Inr (concat (map (\<lambda>page_text. if page_text \<noteq> [] then page_text @ [10] else []) pages)))"

subsection \<open>\<open>convert_text_to_speech\<close>\<close>

text \<open>
  The \<open>for i, chunk in enumerate(chunks)\<close> loop: each chunk is synthesised into a
  temporary file, the file is checked and decoded, and the segment is appended to
  \<open>audio_segments\<close>. The first exception ends the loop.
\<close>

fun synthesize :: "'a env \<Rightarrow> ustring \<Rightarrow> ustring list \<Rightarrow> 'a list \<Rightarrow> exn + 'a list" where
  "synthesize e language [] audio_segments = Inr audio_segments"
| "synthesize e language (chunk # chunks) audio_segments =
     (case tts_save e language chunk of
        Inl x \<Rightarrow> Inl x
      | Inr (temp_file_path, file_size) \<Rightarrow>
          if file_size = 0
          then Inl (RuntimeError (ustr ''Failed to create temporary audio file: '' @ temp_file_path))
          else (case from_mp3 e temp_file_path of
                  Inl x \<Rightarrow> Inl x
                | Inr segment \<Rightarrow> synthesize e language chunks (audio_segments @ [segment])))"

text \<open>
  The assembly: \<open>audio_segments[0]\<close> raises \<open>IndexError\<close> on the empty list; otherwise
  the segments are added up from the left and exported, and the output file is checked.
  The second component lists the audio handed to \<open>export\<close>: it is empty when no file
  was exported.
\<close>

definition assemble :: "'a env \<Rightarrow> ustring \<Rightarrow> 'a list \<Rightarrow> (exn + bool) \<times> 'a list" where
  "assemble e output_file audio_segments =
     (case audio_segments of
        [] \<Rightarrow> (Inl (IndexError (ustr ''list index out of range'')), [])
      | first # others \<Rightarrow>
          (let combined_audio = foldl (append_audio e) first others
           in case export_mp3 e combined_audio output_file of
                Inl x \<Rightarrow> (Inl x, [combined_audio])
              | Inr file_size \<Rightarrow>
                  if file_size = 0
                  then (Inl (RuntimeError (ustr ''Failed to create output file: '' @ output_file)),
                        [combined_audio])
                  else (Inr True, [combined_audio])))"

text \<open>
  \<open>convert_text_to_speech\<close>. An exception of the inner \<open>try\<close> is logged and raised
  again, and the outer handler turns every exception into a \<open>RuntimeError\<close> with the
  prefixed message. The result is \<open>None\<close> if \<open>split_text\<close> does not return.
\<close>

definition reraise :: "exn + bool \<Rightarrow> exn + bool" where
  "reraise r =
     (case r of
        Inl x \<Rightarrow> Inl (RuntimeError (ustr ''Text-to-speech conversion failed: '' @ exn_str x))
      | Inr b \<Rightarrow> Inr b)"

definition convert_text_to_speech ::
  "'a env \<Rightarrow> ustring \<Rightarrow> ustring \<Rightarrow> ustring \<Rightarrow> ((exn + bool) \<times> 'a list) option" where
  "convert_text_to_speech e text output_file language =
     (if \<not> ffmpeg_available e
      then Some (reraise (Inl (RuntimeError
             (ustr ''ffmpeg is required but not found. Please install ffmpeg and add it to PATH.''))), [])
      else case split_text text 1000 of
             None \<Rightarrow> None
           | Some chunks \<Rightarrow>
               (case progress_window e of
                  Some x \<Rightarrow> Some (reraise (Inl x), [])
                | None \<Rightarrow>
                    (case synthesize e language chunks [] of
                       Inl x \<Rightarrow> Some (reraise (Inl x), [])
                     | Inr audio_segments \<Rightarrow>
                         (let (r, exported) = assemble e output_file audio_segments
                          in Some (reraise r, exported)))))"

subsection \<open>\<open>convert_pdf_to_speech\<close>\<close>

text \<open>
  The body of the \<open>try\<close> of \<open>convert_pdf_to_speech\<close>, with the exception that leaves
  it, and the function itself, whose handler turns that exception into a
  \<open>(False, message)\<close> result.
\<close>

definition convert_pdf_body ::
  "'a env \<Rightarrow> ustring \<Rightarrow> ustring \<Rightarrow> ustring \<Rightarrow> ((exn + bool \<times> ustring) \<times> 'a list) option" where
  "convert_pdf_body e pdf_path output_file language =
     (if \<not> path_exists e pdf_path
      then Some (Inl (FileNotFoundError (ustr ''PDF file not found: '' @ pdf_path)), [])
      else case extract_text_from_pdf e pdf_path of
             Inl x \<Rightarrow> Some (Inl x, [])
           | Inr raw_text \<Rightarrow>
               if raw_text = []
               then Some (Inr (False,
                      ustr ''No text extracted from PDF. The file may be scanned or image-based.''), [])
               else (case convert_text_to_speech e (clean_text raw_text) output_file language of
                       None \<Rightarrow> None
                     | Some (Inl x, exported) \<Rightarrow> Some (Inl x, exported)
                     | Some (Inr _, exported) \<Rightarrow>
                         Some (Inr (True, ustr ''Conversion successful!''), exported)))"

definition convert_pdf_to_speech ::
  "'a env \<Rightarrow> ustring \<Rightarrow> ustring \<Rightarrow> ustring \<Rightarrow> ((bool \<times> ustring) \<times> 'a list) option" where
  "convert_pdf_to_speech e pdf_path output_file language =
     (case convert_pdf_body e pdf_path output_file language of
        None \<Rightarrow> None
      | Some (Inl x, exported) \<Rightarrow>
          Some ((False, ustr ''PDF to speech conversion failed: '' @ exn_str x), exported)
      | Some (Inr r, exported) \<Rightarrow> Some (r, exported))"

subsection \<open>\<open>main_cli\<close>\<close>

text \<open>
  The parsed command line. \<open>--speed\<close> is declared with \<open>type=float\<close> and
  \<open>default=1.0\<close> and nothing else, so \<open>speed\<close> is whatever number was given.
\<close>

record args =
  pdf_file :: ustring
  output_file :: ustring
  lang :: ustring
  speed :: real

text \<open>
  How a run of \<open>main_cli\<close> ends: the PDF is missing; the output directory cannot be
  created; the conversion was run and failed with a message; or it was run and the file
  saved, with the factor the speed adjustment was run with (if it was run) and the
  exception it raised (if any, printed as a warning).
\<close>

datatype cli_end =
    PdfNotFound
  | OutputDirFailed exn
  | ConversionError ustring
  | Saved "real option" "exn option"

definition main_cli :: "'a env \<Rightarrow> args \<Rightarrow> cli_end option" where
  "main_cli e a =
     (if \<not> path_exists e (pdf_file a) then Some PdfNotFound
      else case prepare_output_dir e (output_file a) of
             Some x \<Rightarrow> Some (OutputDirFailed x)
           | None \<Rightarrow>
               (case convert_pdf_to_speech e (pdf_file a) (output_file a) (lang a) of
                  None \<Rightarrow> None
                | Some ((success, message), exported) \<Rightarrow>
                    if success
                    then (if speed a \<noteq> 1
                          then Some (Saved (Some (speed a)) (adjust_speed e (output_file a) (speed a)))
                          else Some (Saved None None))
                    else Some (ConversionError message)))"

subsection \<open>Two environments\<close>

text \<open>
  \<open>working_env\<close> is an environment in which every outside call succeeds: the PDF has one
  page of text, the speech service writes a non-empty file for each chunk, and decoding
  and exporting work. \<open>scanned_env\<close> differs in the PDF only: three pages, none with any
  text. Audio is a list of samples here.
\<close>

definition working_env :: "nat list env" where
  "working_env =
     \<lparr>path_exists = (\<lambda>p. True),
      pdf_pages = (\<lambda>p. Inr [ustr ''Hi there.'']),
      ffmpeg_available = True,
      progress_window = None,
      tts_save = (\<lambda>language chunk. Inr (ustr ''tmp.mp3'', length chunk)),
      from_mp3 = (\<lambda>p. Inr [1, 2, 3]),
      append_audio = (@),
      export_mp3 = (\<lambda>audio p. Inr (length audio)),
      prepare_output_dir = (\<lambda>p. None),
      adjust_speed = (\<lambda>p f. None)\<rparr>"

definition scanned_env :: "nat list env" where
  "scanned_env = working_env\<lparr>pdf_pages := (\<lambda>p. Inr [[], [], []])\<rparr>"

section \<open>Properties of the chunker\<close>

subsection \<open>Slices, search and one step of the loop\<close>

lemma slice_bound_nonneg: "0 \<le> k \<Longrightarrow> slice_bound n k = min (nat k) n"
  by (simp add: slice_bound_def)

lemma last_index_from_range:
  "best < i \<Longrightarrow> best \<le> last_index_from c xs i best \<and> last_index_from c xs i best < i + int (length xs)"
proof (induction xs arbitrary: i best)
  case Nil
  then show ?case by simp
next
  case (Cons x xs)
  have "(if x = c then i else best) < i + 1"
    using Cons.prems by simp
  from Cons.IH [OF this] show ?case
    using Cons.prems by (auto split: if_splits)
qed

lemma rfind_range: "- 1 \<le> rfind s c e \<and> rfind s c e < int (length (slice_to s e))"
  using last_index_from_range [of "- 1" 0 c "slice_to s e"] by (simp add: rfind_def)

lemma find_split_range:
  assumes "1 \<le> m"
  shows "1 \<le> find_split bs s m \<and> find_split bs s m \<le> m"
proof (induction bs)
  case Nil
  show ?case using assms by simp
next
  case (Cons b bs)
  have "rfind s b m < int (length (slice_to s m))"
    using rfind_range by blast
  moreover have "int (length (slice_to s m)) \<le> m"
    using assms by (simp add: slice_to_def slice_bound_nonneg)
  ultimately show ?case
    using Cons.IH by (simp add: Let_def)
qed

lemma split_index_range: "1 \<le> m \<Longrightarrow> 1 \<le> split_index s m \<and> split_index s m \<le> m"
  by (simp add: split_index_def find_split_range)

lemma length_strip_le: "length (strip s) \<le> length s"
proof -
  have "length (strip s) \<le> length (lstrip s)"
    using length_dropWhile_le [of is_space "rev (lstrip s)"] by (simp add: strip_def rstrip_def)
  also have "\<dots> \<le> length s"
    by (simp add: lstrip_def length_dropWhile_le)
  finally show ?thesis .
qed

text \<open>What \<open>strip\<close> leaves: a text that neither begins nor ends with whitespace.\<close>

lemma rstrip_prefix: "\<exists>t. s = rstrip s @ t"
proof -
  have "rev s = takeWhile is_space (rev s) @ dropWhile is_space (rev s)"
    by simp
  then have "s = rstrip s @ rev (takeWhile is_space (rev s))"
    by (metis rev_append rev_rev_ident rstrip_def)
  then show ?thesis ..
qed

lemma lstrip_head: "lstrip s = x # xs \<Longrightarrow> \<not> is_space x"
  unfolding lstrip_def by (metis hd_dropWhile list.discI list.sel(1))

lemma lstrip_fixed: "(\<And>x xs. s = x # xs \<Longrightarrow> \<not> is_space x) \<Longrightarrow> lstrip s = s"
  by (cases s) (simp_all add: lstrip_def)

lemma rstrip_idem: "rstrip (rstrip s) = rstrip s"
  by (simp add: rstrip_def dropWhile_idem)

lemma strip_idem: "strip (strip s) = strip s"
proof -
  let ?u = "lstrip s"
  obtain t where t: "?u = rstrip ?u @ t"
    using rstrip_prefix by blast
  have "lstrip (rstrip ?u) = rstrip ?u"
  proof (rule lstrip_fixed)
    fix x xs
    assume "rstrip ?u = x # xs"
    with t have "?u = x # (xs @ t)" by simp
    then show "\<not> is_space x" by (rule lstrip_head)
  qed
  then show ?thesis
    by (simp add: strip_def rstrip_idem)
qed

lemma strip_ends:
  assumes "strip s \<noteq> []"
  shows "\<not> is_space (hd (strip s)) \<and> \<not> is_space (last (strip s))"
proof -
  let ?u = "lstrip s"
  obtain t where t: "?u = rstrip ?u @ t"
    using rstrip_prefix by blast
  from assms have ne: "rstrip ?u \<noteq> []"
    by (simp add: strip_def)
  then obtain x xs where x: "rstrip ?u = x # xs"
    by (cases "rstrip ?u") auto
  with t have "?u = x # (xs @ t)" by simp
  then have "\<not> is_space x" by (rule lstrip_head)
  with x have h: "\<not> is_space (hd (strip s))"
    by (simp add: strip_def)
  from ne have d: "dropWhile is_space (rev ?u) \<noteq> []"
    by (simp add: rstrip_def)
  then have "\<not> is_space (hd (dropWhile is_space (rev ?u)))"
    by (rule hd_dropWhile)
  with d have "\<not> is_space (last (strip s))"
    by (simp add: strip_def rstrip_def last_rev)
  with h show ?thesis ..
qed

lemma split_step_facts:
  assumes "1 \<le> m" and "m < int (length s)"
  shows "slice_to s (split_index s m) \<noteq> []"
    and "int (length (slice_to s (split_index s m))) \<le> m"
    and "length (strip (slice_from s (split_index s m))) < length s"
proof -
  let ?k = "split_index s m"
  have k: "1 \<le> ?k" "?k \<le> m"
    using split_index_range [OF assms(1)] by auto
  then have b: "slice_bound (length s) ?k = nat ?k"
    using assms(2) by (simp add: slice_bound_def)
  show "slice_to s ?k \<noteq> []"
    using k assms(2) by (auto simp: slice_to_def b)
  show "int (length (slice_to s ?k)) \<le> m"
    using k assms(2) by (simp add: slice_to_def b)
  have "length (strip (slice_from s ?k)) \<le> length (slice_from s ?k)"
    by (rule length_strip_le)
  also have "\<dots> < length s"
    using k assms(2) by (simp add: slice_from_def b)
  finally show "length (strip (slice_from s ?k)) < length s" .
qed

lemma split_loop_total:
  assumes "1 \<le> m"
  shows "\<exists>cs. split_loop acc s m = Some (acc @ cs) \<and> (\<forall>c \<in> set cs. c \<noteq> [] \<and> int (length c) \<le> m)"
proof (induction "length s" arbitrary: s acc rule: less_induct)
  case less
  show ?case
  proof (cases "s = []")
    case True
    then show ?thesis by (subst split_loop.simps) simp
  next
    case False
    show ?thesis
    proof (cases "int (length s) \<le> m")
      case True
      with False show ?thesis by (subst split_loop.simps) simp
    next
      case long: False
      let ?k = "split_index s m"
      from long have lt: "m < int (length s)" by simp
      note facts = split_step_facts [OF assms lt]
      from less [OF facts(3), of "acc @ [slice_to s ?k]"]
      obtain cs where cs: "split_loop (acc @ [slice_to s ?k]) (strip (slice_from s ?k)) m = Some ((acc @ [slice_to s ?k]) @ cs)"
        and ok: "\<forall>c \<in> set cs. c \<noteq> [] \<and> int (length c) \<le> m"
        by blast
      have "split_loop acc s m = Some (acc @ (slice_to s ?k # cs))"
        using False long cs by (subst split_loop.simps) simp
      moreover have "\<forall>c \<in> set (slice_to s ?k # cs). c \<noteq> [] \<and> int (length c) \<le> m"
        using ok facts(1,2) by simp
      ultimately show ?thesis by blast
    qed
  qed
qed

text \<open>The chunks found do not depend on the chunks already collected.\<close>

lemma split_loop_acc:
  assumes "1 \<le> m"
  shows "\<exists>cs. \<forall>acc. split_loop acc s m = Some (acc @ cs)"
proof (induction "length s" arbitrary: s rule: less_induct)
  case less
  show ?case
  proof (cases "s = []")
    case True
    have "\<forall>acc. split_loop acc s m = Some (acc @ [])"
      using True by (subst split_loop.simps) simp
    then show ?thesis ..
  next
    case False
    show ?thesis
    proof (cases "int (length s) \<le> m")
      case True
      have "\<forall>acc. split_loop acc s m = Some (acc @ [s])"
        using False True by (subst split_loop.simps) simp
      then show ?thesis ..
    next
      case long: False
      let ?k = "split_index s m"
      from long have lt: "m < int (length s)" by simp
      from less [OF split_step_facts(3) [OF assms lt]]
      obtain cs where cs: "\<forall>acc. split_loop acc (strip (slice_from s ?k)) m = Some (acc @ cs)"
        by blast
      have "\<forall>acc. split_loop acc s m = Some (acc @ (slice_to s ?k # cs))"
      proof
        fix acc
        have "split_loop acc s m = split_loop (acc @ [slice_to s ?k]) (strip (slice_from s ?k)) m"
          using False long by (subst split_loop.simps) simp
        with cs show "split_loop acc s m = Some (acc @ (slice_to s ?k # cs))"
          by simp
      qed
      then show ?thesis ..
    qed
  qed
qed

lemma split_text_first_chunk:
  assumes "1 \<le> m" and "m < int (length s)"
  shows "\<exists>rest. split_text s m = Some (slice_to s (split_index s m) # rest) \<and>
           split_text (strip (slice_from s (split_index s m))) m = Some rest"
proof -
  let ?k = "split_index s m"
  obtain cs where cs: "\<forall>acc. split_loop acc (strip (slice_from s ?k)) m = Some (acc @ cs)"
    using split_loop_acc [OF assms(1)] by blast
  from assms have "s \<noteq> []" "\<not> int (length s) \<le> m" by auto
  then have "split_loop [] s m = split_loop ([] @ [slice_to s ?k]) (strip (slice_from s ?k)) m"
    by (subst split_loop.simps) simp
  with cs have "split_text s m = Some (slice_to s ?k # cs)"
    by (simp add: split_text_def)
  moreover from cs have "split_text (strip (slice_from s ?k)) m = Some cs"
    by (simp add: split_text_def)
  ultimately show ?thesis by blast
qed

lemma split_index_zero: "split_index s 0 = 0"
  by (simp add: split_index_def boundaries_def rfind_def slice_to_def slice_bound_def)

lemma split_loop_zero_diverges:
  assumes "split_loop acc s m = Some y"
  shows "\<not> (m = 0 \<and> s \<noteq> [] \<and> strip s = s)"
proof (rule split_loop.raw_induct
    [where P = "\<lambda>acc s m y. \<not> (m = 0 \<and> s \<noteq> [] \<and> strip s = s)", OF _ assms])
  fix f :: "ustring list \<Rightarrow> ustring \<Rightarrow> int \<Rightarrow> ustring list option"
  fix acc s m y
  assume IH: "\<And>acc s m y. f acc s m = Some y \<Longrightarrow> \<not> (m = 0 \<and> s \<noteq> [] \<and> strip s = s)"
  assume body: "(if s = [] then Some acc
      else if int (length s) \<le> m then Some (acc @ [s])
      else f (acc @ [slice_to s (split_index s m)])
             (strip (slice_from s (split_index s m))) m) = Some y"
  show "\<not> (m = 0 \<and> s \<noteq> [] \<and> strip s = s)"
  proof
    assume a: "m = 0 \<and> s \<noteq> [] \<and> strip s = s"
    then have "\<not> int (length s) \<le> m" by simp
    with body a have "f (acc @ [slice_to s (split_index s m)]) (strip (slice_from s (split_index s m))) m = Some y"
      by simp
    from IH [OF this] a show False
      by (simp add: split_index_zero slice_from_def slice_bound_def)
  qed
qed

subsection \<open>Chunks and the text they come from\<close>

lemma strip_decompose: "\<exists>l r. s = l @ strip s @ r \<and> blank l \<and> blank r"
proof -
  let ?l = "takeWhile is_space s"
  let ?m = "lstrip s"
  let ?r = "rev (takeWhile is_space (rev ?m))"
  have "s = ?l @ ?m"
    by (simp add: lstrip_def)
  moreover have "rev ?m = takeWhile is_space (rev ?m) @ dropWhile is_space (rev ?m)"
    by simp
  then have "?m = strip s @ ?r"
    by (metis rev_append rev_rev_ident rstrip_def strip_def)
  moreover have "blank ?l"
    by (simp add: blank_def list_all_iff) (meson set_takeWhileD)
  moreover have "blank ?r"
    by (simp add: blank_def list_all_iff) (meson set_takeWhileD)
  ultimately show ?thesis by metis
qed

lemma weave_Nil [simp]: "weave [] gs = []"
  by (simp add: weave_def)

lemma weave_Cons [simp]: "weave (c # cs) (g # gs) = c @ g @ weave cs gs"
  by (simp add: weave_def)

lemma weave_append_last:
  "length gs = length cs \<Longrightarrow> cs \<noteq> [] \<Longrightarrow> weave cs gs @ r = weave cs (butlast gs @ [last gs @ r])"
proof (induction gs cs rule: list_induct2)
  case Nil
  then show ?case by simp
next
  case (Cons g gs c cs)
  show ?case
  proof (cases "cs = []")
    case True
    with Cons show ?thesis by simp
  next
    case False
    with Cons have "gs \<noteq> []" by auto
    with Cons False show ?thesis by simp
  qed
qed

lemma blank_append [simp]: "blank (a @ b) \<longleftrightarrow> blank a \<and> blank b"
  by (simp add: blank_def)

lemma blank_Nil [simp]: "blank []"
  by (simp add: blank_def)

lemma split_loop_weave:
  assumes "1 \<le> m"
  shows "\<exists>cs gs. split_loop acc s m = Some (acc @ cs) \<and> length gs = length cs \<and>
           list_all blank gs \<and> s = weave cs gs"
proof (induction "length s" arbitrary: s acc rule: less_induct)
  case less
  show ?case
  proof (cases "s = []")
    case True
    then have "split_loop acc s m = Some (acc @ [])"
      by (subst split_loop.simps) simp
    with True show ?thesis
      by (intro exI [of _ "[]"]) simp
  next
    case False
    show ?thesis
    proof (cases "int (length s) \<le> m")
      case True
      with False have "split_loop acc s m = Some (acc @ [s])"
        by (subst split_loop.simps) simp
      then show ?thesis
        by (intro exI [of _ "[s]"] exI [of _ "[[]]"]) simp
    next
      case long: False
      let ?k = "split_index s m"
      let ?c = "slice_to s ?k"
      let ?rest = "slice_from s ?k"
      from long have lt: "m < int (length s)" by simp
      note facts = split_step_facts [OF assms lt]
      from less [OF facts(3), of "acc @ [?c]"]
      obtain cs gs where cs: "split_loop (acc @ [?c]) (strip ?rest) m = Some ((acc @ [?c]) @ cs)"
        and len: "length gs = length cs" and bl: "list_all blank gs"
        and w: "strip ?rest = weave cs gs"
        by blast
      obtain l r where lr: "?rest = l @ strip ?rest @ r" "blank l" "blank r"
        using strip_decompose by blast
      have s: "s = ?c @ ?rest"
        by (simp add: slice_to_def slice_from_def)
      have run: "split_loop acc s m = Some (acc @ (?c # cs))"
        using False long cs by (subst split_loop.simps) simp
      show ?thesis
      proof (cases "cs = []")
        case True
        with len w have "strip ?rest = []" by simp
        with lr s have "s = weave [?c] [l @ r]"
          by simp
        with run True lr show ?thesis
          by (intro exI [of _ "[?c]"] exI [of _ "[l @ r]"]) simp
      next
        case ne: False
        let ?gs = "butlast gs @ [last gs @ r]"
        from ne len have gne: "gs \<noteq> []" by auto
        have "strip ?rest @ r = weave cs ?gs"
          using weave_append_last [OF len ne] w by simp
        with lr(1) have "?rest = l @ weave cs ?gs" by simp
        with s have "s = weave (?c # cs) (l # ?gs)"
          by simp
        moreover have "length (l # ?gs) = length (?c # cs)"
          using len ne by (cases cs) auto
        moreover have "list_all blank (l # ?gs)"
        proof -
          from bl gne have "list_all blank (butlast gs)" "blank (last gs)"
            by (auto simp: list_all_iff dest: in_set_butlastD)
          with lr show ?thesis by simp
        qed
        ultimately show ?thesis
          using run by blast
      qed
    qed
  qed
qed

subsection \<open>The split point of the code and of the specification\<close>

lemma last_index_from_append:
  "last_index_from c (xs @ ys) i best =
     last_index_from c ys (i + int (length xs)) (last_index_from c xs i best)"
  by (induction xs arbitrary: i best) (simp_all add: add.assoc)

lemma last_index_from_filter:
  "last_index_from c xs i best =
     (case filter (\<lambda>j. xs ! j = c) (rev [0..<length xs]) of
        [] \<Rightarrow> best
      | j # _ \<Rightarrow> i + int j)"
proof (induction xs rule: rev_induct)
  case Nil
  show ?case by simp
next
  case (snoc x xs)
  have same: "filter (\<lambda>j. (xs @ [x]) ! j = c) (rev [0..<length xs]) =
      filter (\<lambda>j. xs ! j = c) (rev [0..<length xs])"
    by (rule filter_cong) (auto simp: nth_append)
  show ?case
    using snoc.IH by (simp add: last_index_from_append same)
qed

lemma rfind_rightmost:
  assumes "0 \<le> m"
  shows "rfind s b m = (case rightmost b s (nat m) of None \<Rightarrow> - 1 | Some i \<Rightarrow> int i)"
proof -
  let ?n = "min (nat m) (length s)"
  have "filter (\<lambda>j. take ?n s ! j = b) (rev [0..<?n]) = filter (\<lambda>j. s ! j = b) (rev [0..<?n])"
    by (rule filter_cong) auto
  then show ?thesis
    using assms
    by (simp add: rfind_def slice_to_def slice_bound_nonneg last_index_from_filter rightmost_def
        split: list.splits)
qed

lemma find_split_spec:
  assumes "0 \<le> m"
  shows "find_split bs s m =
     (case List.find (usable s (nat m)) bs of
        None \<Rightarrow> m
      | Some b \<Rightarrow> (case rightmost b s (nat m) of None \<Rightarrow> m | Some i \<Rightarrow> int i + 1))"
proof (induction bs)
  case Nil
  show ?case by simp
next
  case (Cons b bs)
  show ?case
    using assms Cons.IH
    by (simp add: Let_def rfind_rightmost usable_def split: option.splits)
qed

lemma split_index_spec:
  assumes "0 \<le> m"
  shows "split_index s m = int (spec_split_point s (nat m))"
  using assms
  by (simp add: split_index_def find_split_spec spec_split_point_def split: option.splits)

lemma filter_head: "filter P xs = x # r \<Longrightarrow> x \<in> set xs \<and> P x"
proof -
  assume a: "filter P xs = x # r"
  have "x \<in> set (filter P xs)"
    by (simp add: a)
  then show ?thesis by simp
qed

lemma rightmost_less: "rightmost b s n = Some i \<Longrightarrow> i < n \<and> i < length s \<and> s ! i = b"
proof -
  assume "rightmost b s n = Some i"
  then obtain r where "filter (\<lambda>i. s ! i = b) (rev [0..<min n (length s)]) = i # r"
    by (auto simp: rightmost_def split: list.splits)
  from filter_head [OF this] show ?thesis by simp
qed

lemma spec_split_point_le: "spec_split_point s n \<le> n"
  by (auto simp: spec_split_point_def split: option.splits dest!: rightmost_less)

lemma split_step_spec:
  assumes "0 \<le> m" and "m < int (length s)"
  shows "split_loop chunks s m =
     split_loop (chunks @ [take (spec_split_point s (nat m)) s])
       (strip (drop (spec_split_point s (nat m)) s)) m"
proof -
  let ?p = "spec_split_point s (nat m)"
  have k: "split_index s m = int ?p"
    by (rule split_index_spec [OF assms(1)])
  have "?p \<le> nat m"
    by (rule spec_split_point_le)
  with assms have "?p \<le> length s" by linarith
  then have b: "slice_bound (length s) (int ?p) = ?p"
    by (simp add: slice_bound_def)
  from assms have "s \<noteq> []" "\<not> int (length s) \<le> m" by auto
  then show ?thesis
    by (subst split_loop.simps) (simp add: k slice_to_def slice_from_def b)
qed

lemma rightmost_None: "rightmost b s n = None \<longleftrightarrow> (\<forall>i. i < n \<and> i < length s \<longrightarrow> s ! i \<noteq> b)"
proof
  assume "rightmost b s n = None"
  then have "filter (\<lambda>i. s ! i = b) (rev [0..<min n (length s)]) = []"
    by (auto simp: rightmost_def split: list.splits)
  then show "\<forall>i. i < n \<and> i < length s \<longrightarrow> s ! i \<noteq> b"
    by (auto simp: filter_empty_conv)
next
  assume a: "\<forall>i. i < n \<and> i < length s \<longrightarrow> s ! i \<noteq> b"
  show "rightmost b s n = None"
  proof (cases "rightmost b s n")
    case None
    then show ?thesis .
  next
    case (Some i)
    from rightmost_less [OF this] a show ?thesis by blast
  qed
qed

lemma rightmost_greatest:
  assumes "rightmost b s n = Some i" and "i < j" and "j < n" and "j < length s"
  shows "s ! j \<noteq> b"
proof
  assume eq: "s ! j = b"
  let ?N = "min n (length s)"
  from assms(1) obtain rest where f: "filter (\<lambda>i. s ! i = b) (rev [0..<?N]) = i # rest"
    by (auto simp: rightmost_def split: list.splits)
  have "sorted (rev (filter (\<lambda>i. s ! i = b) (rev [0..<?N])))"
    by (simp add: rev_filter sorted_wrt_filter)
  with f have "\<forall>x \<in> set rest. x \<le> i"
    by (simp add: sorted_append)
  moreover have "j \<in> set (filter (\<lambda>i. s ! i = b) (rev [0..<?N]))"
    using eq assms by simp
  ultimately show False
    using f assms(2) by auto
qed

lemma slices_at_split:
  assumes "0 \<le> m" and "m < int (length s)"
  shows "slice_to s (split_index s m) = take (spec_split_point s (nat m)) s"
    and "slice_from s (split_index s m) = drop (spec_split_point s (nat m)) s"
proof -
  let ?p = "spec_split_point s (nat m)"
  have k: "split_index s m = int ?p"
    by (rule split_index_spec [OF assms(1)])
  have "?p \<le> nat m"
    by (rule spec_split_point_le)
  with assms have "?p \<le> length s" by linarith
  then have b: "slice_bound (length s) (int ?p) = ?p"
    by (simp add: slice_bound_def)
  show "slice_to s (split_index s m) = take ?p s"
    by (simp add: k slice_to_def b)
  show "slice_from s (split_index s m) = drop ?p s"
    by (simp add: k slice_from_def b)
qed

text \<open>The split point of the specification, in plain terms.\<close>

lemma rightmost_usable:
  assumes "usable s n b"
  shows "\<exists>i. 0 < i \<and> i < n \<and> i < length s \<and> s ! i = b \<and> rightmost b s n = Some i \<and>
           (\<forall>j. i < j \<and> j < n \<and> j < length s \<longrightarrow> s ! j \<noteq> b)"
proof -
  from assms obtain i where i: "rightmost b s n = Some i" "0 < i"
    by (auto simp: usable_def split: option.splits)
  from rightmost_less [OF i(1)] rightmost_greatest [OF i(1)] i show ?thesis
    by blast
qed

lemma not_usable:
  assumes "\<not> usable s n b" and "0 < i" and "i < n" and "i < length s"
  shows "s ! i \<noteq> b"
proof (cases "rightmost b s n")
  case None
  with assms show ?thesis by (simp add: rightmost_None)
next
  case (Some k)
  with assms(1) have "k = 0" by (simp add: usable_def)
  with Some rightmost_greatest [OF Some, of i] assms show ?thesis by simp
qed

lemma spec_split_point_cases:
  "(\<exists>pre b post i. boundaries = pre @ b # post \<and>
       (\<forall>b' \<in> set pre. \<forall>j. 0 < j \<and> j < n \<and> j < length s \<longrightarrow> s ! j \<noteq> b') \<and>
       0 < i \<and> i < n \<and> i < length s \<and> s ! i = b \<and>
       (\<forall>j. i < j \<and> j < n \<and> j < length s \<longrightarrow> s ! j \<noteq> b) \<and>
       spec_split_point s n = i + 1) \<or>
   ((\<forall>b \<in> set boundaries. \<forall>j. 0 < j \<and> j < n \<and> j < length s \<longrightarrow> s ! j \<noteq> b) \<and>
       spec_split_point s n = n)"
proof (cases "List.find (usable s n) boundaries")
  case None
  then have "\<forall>b \<in> set boundaries. \<not> usable s n b"
    by (simp add: find_None_iff)
  then have "\<forall>b \<in> set boundaries. \<forall>j. 0 < j \<and> j < n \<and> j < length s \<longrightarrow> s ! j \<noteq> b"
    using not_usable by blast
  moreover from None have "spec_split_point s n = n"
    by (simp add: spec_split_point_def)
  ultimately show ?thesis by blast
next
  case (Some b)
  then obtain k where k: "k < length boundaries" "usable s n (boundaries ! k)" "b = boundaries ! k"
    "\<forall>j<k. \<not> usable s n (boundaries ! j)"
    by (auto simp: find_Some_iff)
  let ?pre = "take k boundaries" and ?post = "drop (Suc k) boundaries"
  have split: "boundaries = ?pre @ b # ?post"
    using k(1,3) by (simp add: id_take_nth_drop)
  have "\<forall>b' \<in> set ?pre. \<not> usable s n b'"
    using k(1,4) by (auto simp: in_set_conv_nth)
  then have pre: "\<forall>b' \<in> set ?pre. \<forall>j. 0 < j \<and> j < n \<and> j < length s \<longrightarrow> s ! j \<noteq> b'"
    using not_usable by blast
  from rightmost_usable k(2,3) obtain i where i: "0 < i" "i < n" "i < length s" "s ! i = b"
    "rightmost b s n = Some i" "\<forall>j. i < j \<and> j < n \<and> j < length s \<longrightarrow> s ! j \<noteq> b"
    by blast
  from Some i(5) have "spec_split_point s n = i + 1"
    by (simp add: spec_split_point_def)
  with split pre i show ?thesis by blast
qed

section \<open>The claims about the chunker\<close>

text \<open>The definitions that a run of the chunker on a concrete text unfolds.\<close>

lemmas chunk_eval = split_text_def ustr_def split_index_def boundaries_def rfind_def
  slice_to_def slice_from_def slice_bound_def strip_def lstrip_def rstrip_def is_space_def

text \<open>
  C1 (as amended). For a text longer than \<open>max_chars\<close> (\<open>max_chars \<ge> 0\<close>), the
  \<open>split_index\<close> that the code computes is the split point of the specification: the
  boundary characters are tried in their fixed order, the first one with an occurrence at
  a position \<open>> 0\<close> within the first \<open>max_chars\<close> characters is taken and the split is
  right after its right-most occurrence there; without such a boundary the split is at
  \<open>max_chars\<close>. The chunk emitted is the text before the split. The text that enters the
  next pass is the text after the split trimmed of whitespace on both sides: it neither
  begins nor ends with whitespace. For \<open>max_chars \<ge> 1\<close> the chunker returns that chunk
  followed by the chunks of the trimmed remainder.
\<close>

theorem split_text_step:
  assumes "0 \<le> max_chars" and "max_chars < int (length s)"
  shows "split_index s max_chars = int (spec_split_point s (nat max_chars)) \<and>
    ((\<exists>pre b post i. boundaries = pre @ b # post \<and>
        (\<forall>b' \<in> set pre. \<forall>j. 0 < j \<and> j < nat max_chars \<and> j < length s \<longrightarrow> s ! j \<noteq> b') \<and>
        0 < i \<and> i < nat max_chars \<and> i < length s \<and> s ! i = b \<and>
        (\<forall>j. i < j \<and> j < nat max_chars \<and> j < length s \<longrightarrow> s ! j \<noteq> b) \<and>
        split_index s max_chars = int i + 1) \<or>
     ((\<forall>b \<in> set boundaries. \<forall>j. 0 < j \<and> j < nat max_chars \<and> j < length s \<longrightarrow> s ! j \<noteq> b) \<and>
        split_index s max_chars = max_chars)) \<and>
    slice_to s (split_index s max_chars) = take (nat (split_index s max_chars)) s \<and>
    slice_from s (split_index s max_chars) = drop (nat (split_index s max_chars)) s \<and>
    (\<exists>l r. slice_from s (split_index s max_chars) =
        l @ strip (slice_from s (split_index s max_chars)) @ r \<and> blank l \<and> blank r) \<and>
    (strip (slice_from s (split_index s max_chars)) = [] \<or>
       \<not> is_space (hd (strip (slice_from s (split_index s max_chars)))) \<and>
       \<not> is_space (last (strip (slice_from s (split_index s max_chars))))) \<and>
    (1 \<le> max_chars \<longrightarrow>
       (\<exists>rest. split_text s max_chars = Some (slice_to s (split_index s max_chars) # rest) \<and>
          split_text (strip (slice_from s (split_index s max_chars))) max_chars = Some rest))"
proof (intro conjI)
  let ?k = "split_index s max_chars"
  let ?p = "spec_split_point s (nat max_chars)"
  show k: "?k = int ?p"
    by (rule split_index_spec [OF assms(1)])
  show "(\<exists>pre b post i. boundaries = pre @ b # post \<and>
        (\<forall>b' \<in> set pre. \<forall>j. 0 < j \<and> j < nat max_chars \<and> j < length s \<longrightarrow> s ! j \<noteq> b') \<and>
        0 < i \<and> i < nat max_chars \<and> i < length s \<and> s ! i = b \<and>
        (\<forall>j. i < j \<and> j < nat max_chars \<and> j < length s \<longrightarrow> s ! j \<noteq> b) \<and>
        ?k = int i + 1) \<or>
     ((\<forall>b \<in> set boundaries. \<forall>j. 0 < j \<and> j < nat max_chars \<and> j < length s \<longrightarrow> s ! j \<noteq> b) \<and>
        ?k = max_chars)"
  proof -
    from spec_split_point_cases [of "nat max_chars" s]
    consider pre b post i where "boundaries = pre @ b # post"
        "\<forall>b' \<in> set pre. \<forall>j. 0 < j \<and> j < nat max_chars \<and> j < length s \<longrightarrow> s ! j \<noteq> b'"
        "0 < i" "i < nat max_chars" "i < length s" "s ! i = b"
        "\<forall>j. i < j \<and> j < nat max_chars \<and> j < length s \<longrightarrow> s ! j \<noteq> b"
        "?p = i + 1"
      | "\<forall>b \<in> set boundaries. \<forall>j. 0 < j \<and> j < nat max_chars \<and> j < length s \<longrightarrow> s ! j \<noteq> b"
        "?p = nat max_chars"
      by blast
    then show ?thesis
    proof cases
      case 1
      from 1(8) k have "?k = int i + 1" by simp
      with 1 show ?thesis by blast
    next
      case 2
      from 2(2) k assms(1) have "?k = max_chars" by simp
      with 2 show ?thesis by blast
    qed
  qed
  show "slice_to s ?k = take (nat ?k) s"
    using slices_at_split(1) [OF assms] by (simp add: k)
  show "slice_from s ?k = drop (nat ?k) s"
    using slices_at_split(2) [OF assms] by (simp add: k)
  show "\<exists>l r. slice_from s ?k = l @ strip (slice_from s ?k) @ r \<and> blank l \<and> blank r"
    by (rule strip_decompose)
  show "strip (slice_from s ?k) = [] \<or>
       \<not> is_space (hd (strip (slice_from s ?k))) \<and> \<not> is_space (last (strip (slice_from s ?k)))"
    using strip_ends by blast
  show "1 \<le> max_chars \<longrightarrow>
       (\<exists>rest. split_text s max_chars = Some (slice_to s ?k # rest) \<and>
          split_text (strip (slice_from s ?k)) max_chars = Some rest)"
    using split_text_first_chunk [OF _ assms(2)] by blast
qed

text \<open>
  On \<open>a!b. c;d e\<close> followed by a space, with \<open>max_chars = 8\<close>: the full stop at
  position 3 wins over the semicolon at position 6, which is further to the right but
  later in the order of priority, and the split is not the hard cut at 8. The remainder
  has a space on both sides and loses both.
\<close>

theorem split_text_step_witness:
  "(0::int) \<le> 8 \<and> 8 < int (length (ustr ''a!b. c;d e '')) \<and> (1::int) \<le> 8 \<and>
   split_index (ustr ''a!b. c;d e '') 8 = int (spec_split_point (ustr ''a!b. c;d e '') (nat 8)) \<and>
   split_index (ustr ''a!b. c;d e '') 8 = 4 \<and>
   slice_to (ustr ''a!b. c;d e '') (split_index (ustr ''a!b. c;d e '') 8) = ustr ''a!b.'' \<and>
   slice_from (ustr ''a!b. c;d e '') (split_index (ustr ''a!b. c;d e '') 8) = ustr '' c;d e '' \<and>
   strip (slice_from (ustr ''a!b. c;d e '') (split_index (ustr ''a!b. c;d e '') 8)) = ustr ''c;d e'' \<and>
   split_text (ustr ''a!b. c;d e '') 8 = Some [ustr ''a!b.'', ustr ''c;d e''] \<and>
   split_text (ustr ''c;d e'') 8 = Some [ustr ''c;d e'']"
proof -
  have k: "split_index (ustr ''a!b. c;d e '') 8 = 4"
    by (simp add: chunk_eval)
  have e: "split_text (ustr ''a!b. c;d e '') 8 = Some [ustr ''a!b.'', ustr ''c;d e'']"
    "split_text (ustr ''c;d e'') 8 = Some [ustr ''c;d e'']"
    by (simp_all add: split_loop.simps chunk_eval)
  have sl: "slice_to (ustr ''a!b. c;d e '') 4 = ustr ''a!b.''"
    "slice_from (ustr ''a!b. c;d e '') 4 = ustr '' c;d e ''"
    "strip (ustr '' c;d e '') = ustr ''c;d e''"
    by (simp_all add: chunk_eval)
  have len: "8 < int (length (ustr ''a!b. c;d e ''))"
    by (simp add: ustr_def)
  from split_text_step [of 8 "ustr ''a!b. c;d e ''", THEN conjunct1] len
  have "split_index (ustr ''a!b. c;d e '') 8 = int (spec_split_point (ustr ''a!b. c;d e '') (nat 8))"
    by simp
  with k e sl len show ?thesis
    by simp
qed

text \<open>On \<open>ab.cd\<close> followed by a space, with \<open>max_chars = 3\<close>, the split is after the full stop.\<close>

lemma spec_split_point_example: "spec_split_point (ustr ''ab.cd '') 3 = 3"
  by (simp add: spec_split_point_def usable_def rightmost_def boundaries_def ustr_def upt_rec)

text \<open>
  C1 as it is stated has the remainder left-trimmed only. On \<open>ab.cd\<close> followed by a
  space, with \<open>max_chars = 3\<close>, the text that enters the second pass is \<open>cd\<close>, while
  the left-trimmed remainder is \<open>cd\<close> with its trailing space. The code returns the
  chunks \<open>ab.\<close> and \<open>cd\<close>, whereas a loop going on with the left-trimmed remainder
  returns \<open>ab.\<close> and \<open>cd\<close> with the space: \<open>strip()\<close> has also removed the whitespace
  at the end.
\<close>

theorem split_text_left_trim_counterexample:
  "strip (slice_from (ustr ''ab.cd '') (split_index (ustr ''ab.cd '') 3)) = ustr ''cd'' \<and>
   lstrip (slice_from (ustr ''ab.cd '') (split_index (ustr ''ab.cd '') 3)) = ustr ''cd '' \<and>
   split_loop [] (ustr ''ab.cd '') 3 = Some [ustr ''ab.'', ustr ''cd''] \<and>
   split_loop ([] @ [take (spec_split_point (ustr ''ab.cd '') (nat 3)) (ustr ''ab.cd '')])
       (lstrip (drop (spec_split_point (ustr ''ab.cd '') (nat 3)) (ustr ''ab.cd ''))) 3
     = Some [ustr ''ab.'', ustr ''cd ''] \<and>
   split_loop [] (ustr ''ab.cd '') 3 \<noteq>
     split_loop ([] @ [take (spec_split_point (ustr ''ab.cd '') (nat 3)) (ustr ''ab.cd '')])
       (lstrip (drop (spec_split_point (ustr ''ab.cd '') (nat 3)) (ustr ''ab.cd ''))) 3"
proof -
  have a: "split_loop [] (ustr ''ab.cd '') 3 = Some [ustr ''ab.'', ustr ''cd'']"
    by (simp add: split_loop.simps chunk_eval)
  have b: "split_loop ([] @ [take (spec_split_point (ustr ''ab.cd '') (nat 3)) (ustr ''ab.cd '')])
       (lstrip (drop (spec_split_point (ustr ''ab.cd '') (nat 3)) (ustr ''ab.cd ''))) 3
     = Some [ustr ''ab.'', ustr ''cd '']"
    by (simp add: spec_split_point_example) (simp add: split_loop.simps chunk_eval)
  have "Some [ustr ''ab.'', ustr ''cd''] \<noteq> Some [ustr ''ab.'', ustr ''cd '']"
    by (simp add: ustr_def)
  moreover have "strip (slice_from (ustr ''ab.cd '') (split_index (ustr ''ab.cd '') 3)) = ustr ''cd''"
    "lstrip (slice_from (ustr ''ab.cd '') (split_index (ustr ''ab.cd '') 3)) = ustr ''cd ''"
    by (simp_all add: chunk_eval)
  ultimately show ?thesis
    using a b by simp
qed

text \<open>
  C4 (as amended). For \<open>max_chars \<ge> 1\<close> the chunker returns, and the original text is
  its chunks in order, each followed by a (possibly empty) run of whitespace: the
  whitespace removed between two chunks and, after the last chunk, the whitespace that
  was at the end of the text.
\<close>

theorem split_text_rejoin:
  assumes "1 \<le> max_chars"
  shows "\<exists>chunks gaps. split_text s max_chars = Some chunks \<and> length gaps = length chunks \<and>
           list_all blank gaps \<and> s = weave chunks gaps"
  using split_loop_weave [OF assms, of "[]" s] by (simp add: split_text_def)

theorem split_text_rejoin_witness:
  "(1::int) \<le> 3 \<and>
   (\<exists>chunks gaps. split_text (ustr ''ab.cd '') 3 = Some chunks \<and> length gaps = length chunks \<and>
      list_all blank gaps \<and> ustr ''ab.cd '' = weave chunks gaps) \<and>
   split_text (ustr ''ab.cd '') 3 = Some [ustr ''ab.'', ustr ''cd''] \<and>
   ustr ''ab.cd '' = weave [ustr ''ab.'', ustr ''cd''] [[], ustr '' '']"
  using split_text_rejoin [of 3 "ustr ''ab.cd ''"]
  by (simp add: split_loop.simps chunk_eval weave_def)

text \<open>
  C4 as it is stated puts whitespace back between the chunks only. On \<open>ab.cd\<close> followed
  by a space, with \<open>max_chars = 3\<close>, the chunks are \<open>ab.\<close> and \<open>cd\<close>, and no whitespace
  between them gives back the text, which ends with a space.
\<close>

theorem split_text_rejoin_counterexample:
  "split_text (ustr ''ab.cd '') 3 = Some [ustr ''ab.'', ustr ''cd''] \<and>
   \<not> (\<exists>gaps. length gaps = 2 \<and> list_all blank gaps \<and> last gaps = [] \<and>
          ustr ''ab.cd '' = weave [ustr ''ab.'', ustr ''cd''] gaps)"
proof
  show "split_text (ustr ''ab.cd '') 3 = Some [ustr ''ab.'', ustr ''cd'']"
    by (simp add: split_loop.simps chunk_eval)
  show "\<not> (\<exists>gaps. length gaps = 2 \<and> list_all blank gaps \<and> last gaps = [] \<and>
          ustr ''ab.cd '' = weave [ustr ''ab.'', ustr ''cd''] gaps)"
  proof
    assume "\<exists>gaps. length gaps = 2 \<and> list_all blank gaps \<and> last gaps = [] \<and>
          ustr ''ab.cd '' = weave [ustr ''ab.'', ustr ''cd''] gaps"
    then obtain gaps where g: "length gaps = 2" "last gaps = []"
      and w: "ustr ''ab.cd '' = weave [ustr ''ab.'', ustr ''cd''] gaps"
      by blast
    from g(1) obtain g1 g2 where "gaps = [g1, g2]"
      by (metis (no_types) One_nat_def Suc_1 length_0_conv length_Suc_conv)
    with g(2) w have "ustr ''ab.cd '' = (ustr ''ab.'' @ g1) @ ustr ''cd''"
      by simp
    then have "last (ustr ''ab.cd '') = last ((ustr ''ab.'' @ g1) @ ustr ''cd'')"
      by (rule arg_cong)
    then show False
      by (simp add: ustr_def)
  qed
qed

text \<open>
  C5. For \<open>max_chars \<ge> 1\<close> the chunker returns and every chunk has at most
  \<open>max_chars\<close> characters, hard cuts included.
\<close>

theorem split_text_chunk_bound:
  assumes "1 \<le> max_chars"
  shows "\<exists>chunks. split_text s max_chars = Some chunks \<and>
           (\<forall>c \<in> set chunks. int (length c) \<le> max_chars)"
  using split_loop_total [OF assms, of "[]" s] by (auto simp: split_text_def)

theorem split_text_chunk_bound_witness:
  "(1::int) \<le> 10 \<and>
   split_text (ustr ''Hello world. This is it! ok'') 10 =
     Some [ustr ''Hello worl'', ustr ''d.'', ustr ''This is it'', ustr ''! ok''] \<and>
   ustr ''d.'' \<in> set [ustr ''Hello worl'', ustr ''d.'', ustr ''This is it'', ustr ''! ok''] \<and>
   int (length (ustr ''d.'')) \<le> 10 \<and>
   (\<exists>chunks. split_text (ustr ''Hello world. This is it! ok'') 10 = Some chunks \<and>
      (\<forall>c \<in> set chunks. int (length c) \<le> 10))"
  using split_text_chunk_bound [of 10 "ustr ''Hello world. This is it! ok''"]
  by (simp add: split_loop.simps chunk_eval)

text \<open>
  C9. For \<open>max_chars \<ge> 1\<close> the chunker returns a list of non-empty chunks, and a pass of
  the loop on a text longer than \<open>max_chars\<close> emits a non-empty chunk and goes on with a
  strictly shorter text. For \<open>max_chars = 0\<close> it does not return on a non-empty text that
  is already trimmed.
\<close>

theorem split_text_terminates:
  "(1 \<le> max_chars \<longrightarrow>
      (\<exists>chunks. split_text s max_chars = Some chunks \<and> (\<forall>c \<in> set chunks. c \<noteq> [])) \<and>
      (max_chars < int (length s) \<longrightarrow>
         slice_to s (split_index s max_chars) \<noteq> [] \<and>
         length (strip (slice_from s (split_index s max_chars))) < length s)) \<and>
   (s \<noteq> [] \<and> strip s = s \<longrightarrow> split_text s 0 = None)"
proof (intro conjI impI)
  assume m: "1 \<le> max_chars"
  show "\<exists>chunks. split_text s max_chars = Some chunks \<and> (\<forall>c \<in> set chunks. c \<noteq> [])"
    using split_loop_total [OF m, of "[]" s] by (auto simp: split_text_def)
  assume l: "max_chars < int (length s)"
  show "slice_to s (split_index s max_chars) \<noteq> []"
    by (rule split_step_facts(1) [OF m l])
  show "length (strip (slice_from s (split_index s max_chars))) < length s"
    by (rule split_step_facts(3) [OF m l])
next
  assume a: "s \<noteq> [] \<and> strip s = s"
  show "split_text s 0 = None"
  proof (cases "split_text s 0")
    case None
    then show ?thesis .
  next
    case (Some y)
    then have "split_loop [] s 0 = Some y"
      by (simp add: split_text_def)
    from split_loop_zero_diverges [OF this] a show ?thesis by simp
  qed
qed

theorem split_text_terminates_witness:
  "(1::int) \<le> 3 \<and> 3 < int (length (ustr ''ab.cd '')) \<and>
   split_text (ustr ''ab.cd '') 3 = Some [ustr ''ab.'', ustr ''cd''] \<and>
   slice_to (ustr ''ab.cd '') (split_index (ustr ''ab.cd '') 3) = ustr ''ab.'' \<and>
   strip (slice_from (ustr ''ab.cd '') (split_index (ustr ''ab.cd '') 3)) = ustr ''cd'' \<and>
   ustr ''a'' \<noteq> [] \<and> strip (ustr ''a'') = ustr ''a'' \<and> split_text (ustr ''a'') 0 = None"
proof -
  have e: "split_text (ustr ''ab.cd '') 3 = Some [ustr ''ab.'', ustr ''cd'']"
    by (simp add: split_loop.simps chunk_eval)
  have t: "ustr ''a'' \<noteq> [] \<and> strip (ustr ''a'') = ustr ''a''"
    by (simp add: ustr_def strip_def lstrip_def rstrip_def is_space_def)
  have k: "slice_to (ustr ''ab.cd '') (split_index (ustr ''ab.cd '') 3) = ustr ''ab.'' \<and>
      strip (slice_from (ustr ''ab.cd '') (split_index (ustr ''ab.cd '') 3)) = ustr ''cd''"
    by (simp add: chunk_eval)
  show ?thesis
    using split_text_terminates [of 3 "ustr ''ab.cd ''"] split_text_terminates [of 0 "ustr ''a''"] e t k
    by (simp add: ustr_def)
qed

section \<open>Properties of the cleaner\<close>

subsection \<open>Only printable ASCII leaves the cleaner\<close>

lemma printable_space: "printable c \<Longrightarrow> is_space c \<longleftrightarrow> c = 32"
  by (auto simp: printable_def is_space_def)

lemma printable_sub_nonprintable: "list_all printable (sub_nonprintable s)"
  by (induction s) (simp_all add: sub_nonprintable_def printable_def)

lemma set_sub_hyphens: "set (sub_hyphens s) \<subseteq> insert 45 (set s)"
proof (induction s rule: sub_hyphens.induct)
  case 1
  show ?case by simp
next
  case (2 c cs)
  show ?case
  proof (cases "dropWhile is_space (c # cs)")
    case Nil
    with 2(1) show ?thesis by auto
  next
    case (Cons h r)
    show ?thesis
    proof (cases "h = 45")
      case True
      have "set (dropWhile is_space r) \<subseteq> set r"
        by (auto dest: set_dropWhileD)
      moreover have "set (h # r) \<subseteq> set (c # cs)"
        using Cons by (metis set_dropWhileD subsetI)
      ultimately have "set (dropWhile is_space r) \<subseteq> set (c # cs)"
        by auto
      with 2(2) [OF Cons True] Cons True show ?thesis
        by auto
    next
      case False
      with 2(3) [OF Cons False] Cons show ?thesis by auto
    qed
  qed
qed

lemma match_page_rest:
  "match_page w s = Some rest \<Longrightarrow> rest = dropWhile is_digit (drop 5 s) \<and> \<not> w \<and>
     take 5 s = [80, 97, 103, 101, 32]"
  by (auto simp: match_page_def Let_def split: if_splits)

lemma match_page_set: "match_page w s = Some rest \<Longrightarrow> set rest \<subseteq> set s"
  by (auto dest!: match_page_rest set_dropWhileD in_set_dropD)

lemma set_sub_pages: "set (sub_pages w s) \<subseteq> set s"
proof (induction w s rule: sub_pages.induct)
  case (1 w)
  show ?case by simp
next
  case (2 w c cs)
  show ?case
  proof (cases "match_page w (c # cs)")
    case None
    with 2(1) show ?thesis by auto
  next
    case (Some rest)
    with 2(2) [OF Some] match_page_set [OF Some] show ?thesis by auto
  qed
qed

lemma printable_before_quotes: "list_all printable (before_quotes s)"
proof -
  have "set (before_quotes s) \<subseteq> insert 45 (set (sub_nonprintable (sub_spaces s)))"
    unfolding before_quotes_def using set_sub_pages set_sub_hyphens by blast
  moreover have "printable 45"
    by (simp add: printable_def)
  ultimately show ?thesis
    using printable_sub_nonprintable [of "sub_spaces s"] by (auto simp: list_all_iff)
qed

text \<open>The page-number pass, too, only sees printable ASCII.\<close>

lemma printable_before_pages: "list_all printable (sub_hyphens (sub_nonprintable (sub_spaces s)))"
proof -
  have "printable 45"
    by (simp add: printable_def)
  then show ?thesis
    using set_sub_hyphens [of "sub_nonprintable (sub_spaces s)"]
      printable_sub_nonprintable [of "sub_spaces s"]
    by (auto simp: list_all_iff)
qed

lemma sub_double_quotes_printable: "list_all printable s \<Longrightarrow> sub_double_quotes s = s"
  by (auto simp: sub_double_quotes_def list_all_iff printable_def intro!: map_idI)

lemma sub_single_quotes_printable: "list_all printable s \<Longrightarrow> sub_single_quotes s = s"
  by (auto simp: sub_single_quotes_def list_all_iff printable_def intro!: map_idI)

lemma sub_nonprintable_printable: "list_all printable s \<Longrightarrow> sub_nonprintable s = s"
  by (auto simp: sub_nonprintable_def list_all_iff intro!: map_idI)

lemma set_strip: "set (strip s) \<subseteq> set s"
proof -
  have "set (strip s) \<subseteq> set (lstrip s)"
    by (auto simp: strip_def rstrip_def dest: set_dropWhileD)
  also have "\<dots> \<subseteq> set s"
    by (auto simp: lstrip_def dest: set_dropWhileD)
  finally show ?thesis .
qed

lemma clean_text_strip: "clean_text s = strip (before_quotes s)"
  by (simp add: clean_text_def printable_before_quotes sub_double_quotes_printable
      sub_single_quotes_printable)

lemma printable_clean_text: "list_all printable (clean_text s)"
  using printable_before_quotes [of s] set_strip [of "before_quotes s"]
  by (auto simp: clean_text_strip list_all_iff)

subsection \<open>Texts that a second cleaning leaves alone\<close>

lemma sub_spaces_fixed:
  "list_all printable s \<Longrightarrow> single_spaced s \<Longrightarrow> sub_spaces s = s"
proof (induction s rule: single_spaced.induct)
  case (1 a b cs)
  then have IH: "sub_spaces (b # cs) = b # cs" by simp
  show ?case
  proof (cases "is_space a")
    case True
    with 1(2) have "a = 32" by (simp add: printable_space)
    with 1(3) have "b \<noteq> 32" by simp
    with 1(2) have "\<not> is_space b" by (simp add: printable_space)
    with True \<open>a = 32\<close> IH show ?thesis by simp
  next
    case False
    with IH show ?thesis by simp
  qed
qed (simp_all add: printable_space)

lemma sub_hyphens_fixed:
  "list_all printable s \<Longrightarrow> single_spaced s \<Longrightarrow> hyphens_tight s \<Longrightarrow> sub_hyphens s = s"
proof (induction s rule: hyphens_tight.induct)
  case (1 a b cs)
  then have IH: "sub_hyphens (b # cs) = b # cs" by simp
  from 1(2) have sp: "is_space a \<longleftrightarrow> a = 32" "is_space b \<longleftrightarrow> b = 32"
    by (simp_all add: printable_space)
  show ?case
  proof (cases "a = 32")
    case True
    with 1(3,4) have "b \<noteq> 32" "b \<noteq> 45" by auto
    with True sp IH show ?thesis by simp
  next
    case False
    show ?thesis
    proof (cases "a = 45")
      case True
      with 1(4) have "b \<noteq> 32" by auto
      with True sp IH show ?thesis by simp
    next
      case na: False
      with False sp IH show ?thesis by simp
    qed
  qed
qed (simp_all add: printable_space)

lemma sub_pages_fixed: "page_free w s \<Longrightarrow> sub_pages w s = s"
  by (induction w s rule: page_free.induct) simp_all

lemma clean_text_fixed:
  assumes "list_all printable s" and "strip s = s" and "tidy s"
  shows "clean_text s = s"
proof -
  from assms(3) have t: "single_spaced s" "hyphens_tight s" "page_free False s"
    by (simp_all add: tidy_def)
  have "before_quotes s = s"
    by (simp add: before_quotes_def sub_spaces_fixed sub_nonprintable_printable
        sub_hyphens_fixed sub_pages_fixed assms(1) t)
  then show ?thesis
    by (simp add: clean_text_strip assms(2))
qed

lemma clean_text_idem_if:
  assumes "tidy (clean_text x)"
  shows "clean_text (clean_text x) = clean_text x"
proof (rule clean_text_fixed)
  show "list_all printable (clean_text x)"
    by (rule printable_clean_text)
  show "strip (clean_text x) = clean_text x"
    by (simp add: clean_text_strip strip_idem)
  show "tidy (clean_text x)"
    by (rule assms)
qed

subsection \<open>Texts that a second cleaning shortens\<close>

lemma length_sub_spaces: "length (sub_spaces s) \<le> length s"
proof (induction s rule: sub_spaces.induct)
  case 1
  show ?case by simp
next
  case (2 c cs)
  show ?case
  proof (cases "is_space c")
    case True
    have "length (dropWhile is_space cs) \<le> length cs"
      by (rule length_dropWhile_le)
    with 2(1) [OF True] True show ?thesis by simp
  next
    case False
    with 2(2) show ?thesis by simp
  qed
qed

lemma length_sub_nonprintable: "length (sub_nonprintable s) = length s"
  by (simp add: sub_nonprintable_def)

lemma length_sub_hyphens: "length (sub_hyphens s) \<le> length s"
proof (induction s rule: sub_hyphens.induct)
  case 1
  show ?case by simp
next
  case (2 c cs)
  show ?case
  proof (cases "dropWhile is_space (c # cs)")
    case Nil
    with 2(1) show ?thesis by simp
  next
    case (Cons h r)
    show ?thesis
    proof (cases "h = 45")
      case True
      have "length (dropWhile is_space r) \<le> length r"
        by (rule length_dropWhile_le)
      moreover have "length (h # r) \<le> length (c # cs)"
        using length_dropWhile_le [of is_space "c # cs"] Cons by simp
      ultimately show ?thesis
        using 2(2) [OF Cons True] Cons True by simp
    next
      case False
      with 2(3) [OF Cons False] Cons show ?thesis by simp
    qed
  qed
qed

lemma match_page_shorter: "match_page w s = Some rest \<Longrightarrow> length rest < length s"
proof -
  assume "match_page w s = Some rest"
  then have r: "rest = dropWhile is_digit (drop 5 s)" and t: "take 5 s = [80, 97, 103, 101, 32]"
    by (auto dest: match_page_rest)
  from t have "length (take 5 s) = 5" by simp
  then have "5 \<le> length s" by simp
  moreover have "length rest \<le> length (drop 5 s)"
    unfolding r by (rule length_dropWhile_le)
  ultimately show ?thesis by simp
qed

lemma length_sub_pages: "length (sub_pages w s) \<le> length s"
proof (induction w s rule: sub_pages.induct)
  case (1 w)
  show ?case by simp
next
  case (2 w c cs)
  show ?case
  proof (cases "match_page w (c # cs)")
    case None
    with 2(1) show ?thesis by simp
  next
    case (Some rest)
    with 2(2) [OF Some] match_page_shorter [OF Some] show ?thesis by simp
  qed
qed

lemma sub_spaces_shrinks_aux:
  "\<not> single_spaced s \<Longrightarrow>
     length (sub_spaces s) < length s \<and> length (sub_spaces (dropWhile is_space s)) < length s"
proof (induction s rule: single_spaced.induct)
  case (1 a b cs)
  have sp32: "is_space 32" by (simp add: is_space_def)
  show ?case
  proof (cases "a = 32 \<and> b = 32")
    case True
    have d: "length (dropWhile is_space cs) \<le> length cs"
      by (rule length_dropWhile_le)
    have "length (sub_spaces (dropWhile is_space cs)) \<le> length (dropWhile is_space cs)"
      by (rule length_sub_spaces)
    with d True sp32 show ?thesis by simp
  next
    case False
    with 1 have IH: "length (sub_spaces (b # cs)) < length (b # cs)"
      "length (sub_spaces (dropWhile is_space (b # cs))) < length (b # cs)"
      by auto
    then show ?thesis by simp
  qed
qed simp_all

lemma sub_spaces_shrinks: "\<not> single_spaced s \<Longrightarrow> length (sub_spaces s) < length s"
  by (simp add: sub_spaces_shrinks_aux)

lemma sub_hyphens_shrinks:
  "list_all printable s \<Longrightarrow> single_spaced s \<Longrightarrow> \<not> hyphens_tight s \<Longrightarrow>
     length (sub_hyphens s) < length s"
proof (induction s rule: hyphens_tight.induct)
  case (1 a b cs)
  from 1(2) have sp: "is_space a \<longleftrightarrow> a = 32" "is_space b \<longleftrightarrow> b = 32"
    by (simp_all add: printable_space)
  have d: "length (sub_hyphens (dropWhile is_space cs)) \<le> length cs"
    using length_sub_hyphens [of "dropWhile is_space cs"] length_dropWhile_le [of is_space cs]
    by simp
  have sp32: "is_space 32" and sp45: "\<not> is_space 45"
    by (simp_all add: is_space_def)
  show ?case
  proof (cases "(a = 32 \<and> b = 45) \<or> (a = 45 \<and> b = 32)")
    case True
    then show ?thesis
    proof
      assume "a = 32 \<and> b = 45"
      then have "sub_hyphens (a # b # cs) = 45 # sub_hyphens (dropWhile is_space cs)"
        by (simp add: sp32 sp45)
      with d show ?thesis by simp
    next
      assume "a = 45 \<and> b = 32"
      then have "sub_hyphens (a # b # cs) = 45 # sub_hyphens (dropWhile is_space cs)"
        by (simp add: sp32 sp45)
      with d show ?thesis by simp
    qed
  next
    case False
    with 1 have IH: "length (sub_hyphens (b # cs)) < length (b # cs)"
      by auto
    show ?thesis
    proof (cases "a = 32")
      case True
      with 1(3) False have "b \<noteq> 32" "b \<noteq> 45" by auto
      with True sp IH show ?thesis by simp
    next
      case na: False
      show ?thesis
      proof (cases "a = 45")
        case True
        with False have "b \<noteq> 32" by simp
        with True sp IH show ?thesis by simp
      next
        case False
        with na sp IH show ?thesis by simp
      qed
    qed
  qed
qed simp_all

lemma sub_pages_shrinks: "\<not> page_free w s \<Longrightarrow> length (sub_pages w s) < length s"
proof (induction w s rule: sub_pages.induct)
  case (1 w)
  then show ?case by simp
next
  case (2 w c cs)
  show ?case
  proof (cases "match_page w (c # cs)")
    case None
    with 2(1) 2(3) show ?thesis by simp
  next
    case (Some rest)
    have "length (sub_pages True rest) \<le> length rest"
      by (rule length_sub_pages)
    with match_page_shorter [OF Some] Some show ?thesis by simp
  qed
qed

lemma length_clean_text: "length (clean_text s) \<le> length (before_quotes s)"
  by (simp add: clean_text_strip length_strip_le)

lemma before_quotes_shrinks:
  assumes "list_all printable s" and "\<not> tidy s"
  shows "length (before_quotes s) < length s"
proof -
  let ?a = "sub_spaces s"
  let ?b = "sub_nonprintable ?a"
  let ?c = "sub_hyphens ?b"
  have chain: "length (before_quotes s) \<le> length ?c" "length ?c \<le> length ?b"
    "length ?b = length ?a" "length ?a \<le> length s"
    unfolding before_quotes_def
    by (rule length_sub_pages length_sub_hyphens length_sub_nonprintable length_sub_spaces)+
  show ?thesis
  proof (cases "single_spaced s")
    case False
    from sub_spaces_shrinks [OF this] chain show ?thesis by simp
  next
    case ss: True
    then have a: "?a = s" "?b = s"
      using assms(1) by (simp_all add: sub_spaces_fixed sub_nonprintable_printable)
    show ?thesis
    proof (cases "hyphens_tight s")
      case False
      from sub_hyphens_shrinks [OF assms(1) ss this] chain a show ?thesis by simp
    next
      case True
      then have c: "?c = s"
        using a assms(1) ss by (simp add: sub_hyphens_fixed)
      from True ss assms(2) have "\<not> page_free False s"
        by (simp add: tidy_def)
      from sub_pages_shrinks [OF this] show ?thesis
        by (simp add: before_quotes_def c)
    qed
  qed
qed

lemma clean_text_idem_iff:
  "clean_text (clean_text x) = clean_text x \<longleftrightarrow> tidy (clean_text x)"
proof
  assume "tidy (clean_text x)"
  then show "clean_text (clean_text x) = clean_text x"
    by (rule clean_text_idem_if)
next
  assume eq: "clean_text (clean_text x) = clean_text x"
  show "tidy (clean_text x)"
  proof (rule ccontr)
    assume "\<not> tidy (clean_text x)"
    from before_quotes_shrinks [OF printable_clean_text this]
    have "length (clean_text (clean_text x)) < length (clean_text x)"
      using length_clean_text [of "clean_text x"] by simp
    with eq show False by simp
  qed
qed

section \<open>The claims about the cleaner\<close>

text \<open>The definitions that a run of the cleaner on a concrete text unfolds.\<close>

lemmas clean_eval = clean_text_def before_quotes_def sub_single_quotes_def sub_double_quotes_def
  sub_nonprintable_def printable_def match_page_def is_word_def is_digit_def
  strip_def lstrip_def rstrip_def is_space_def ustr_def

text \<open>
  C2 as it is stated. The input is \<open>Hello\<close>, two newlines, \<open>Page 3\<close>, three spaces,
  \<open>World\<close>, U+2019, \<open>s\<close>, two spaces, U+201C, \<open>Best\<close>, U+201D. The cleaner returns
  \<open>Hello\<close>, two spaces, \<open>World s\<close>, two spaces, \<open>Best\<close>, not the text of the claim
  (\<open>Hello World\<close>, apostrophe, \<open>s\<close>, one space, \<open>Best\<close> in straight double quotes).
\<close>

theorem clean_text_example_counterexample:
  "clean_text (ustr ''Hello'' @ [10, 10] @ ustr ''Page 3   World'' @ [8217] @ ustr ''s  '' @
       [8220] @ ustr ''Best'' @ [8221])
     = ustr ''Hello  World s  Best'' \<and>
   clean_text (ustr ''Hello'' @ [10, 10] @ ustr ''Page 3   World'' @ [8217] @ ustr ''s  '' @
       [8220] @ ustr ''Best'' @ [8221])
     \<noteq> ustr ''Hello World'' @ [39] @ ustr ''s '' @ [34] @ ustr ''Best'' @ [34]"
  by (simp add: clean_eval)

text \<open>
  C2 (as amended). On that input the runs of whitespace are collapsed and \<open>Page 3\<close> is
  removed, which leaves the two spaces that were around it: the output begins with
  \<open>Hello\<close>, two spaces, \<open>World\<close>. On the same input with its three quotation marks
  already straight, the output is exactly \<open>Hello\<close>, two spaces, \<open>World\<close>, apostrophe,
  \<open>s\<close>, one space, \<open>Best\<close> in straight double quotes.
\<close>

theorem clean_text_example:
  "take 12 (clean_text (ustr ''Hello'' @ [10, 10] @ ustr ''Page 3   World'' @ [8217] @
       ustr ''s  '' @ [8220] @ ustr ''Best'' @ [8221]))
     = ustr ''Hello  World'' \<and>
   clean_text (ustr ''Hello'' @ [10, 10] @ ustr ''Page 3   World'' @ [39] @ ustr ''s  '' @
       [34] @ ustr ''Best'' @ [34])
     = ustr ''Hello  World'' @ [39] @ ustr ''s '' @ [34] @ ustr ''Best'' @ [34]"
  by (simp add: clean_eval)

text \<open>
  C3 as it is stated. A second cleaning changes the result of the first on
  \<open>a Page 1 b\<close> (the first leaves two spaces, the second collapses them), on
  \<open>a-Page 1 b\<close> (the first leaves a space after the hyphen, the second removes it) and on
  \<open>a\<close>, space, U+00E9, space, \<open>b\<close> (the first leaves three spaces).
\<close>

theorem clean_text_idempotent_counterexample:
  "clean_text (clean_text (ustr ''a Page 1 b'')) \<noteq> clean_text (ustr ''a Page 1 b'') \<and>
   clean_text (clean_text (ustr ''a-Page 1 b'')) \<noteq> clean_text (ustr ''a-Page 1 b'') \<and>
   clean_text (clean_text (ustr ''a '' @ [233] @ ustr '' b'')) \<noteq>
     clean_text (ustr ''a '' @ [233] @ ustr '' b'')"
  by (simp add: clean_eval)

text \<open>
  C3 (as amended). Cleaning a cleaned text changes nothing exactly when the cleaned text
  has no two spaces in a row, no space next to a hyphen and no page-number token left.
\<close>

theorem clean_text_idempotent_iff:
  "clean_text (clean_text x) = clean_text x \<longleftrightarrow> tidy (clean_text x)"
  by (rule clean_text_idem_iff)

theorem clean_text_idempotent_iff_witness:
  "tidy (clean_text (ustr ''a  -  b Page'' @ [10] @ ustr ''2x'')) \<and>
   clean_text (clean_text (ustr ''a  -  b Page'' @ [10] @ ustr ''2x'')) =
     clean_text (ustr ''a  -  b Page'' @ [10] @ ustr ''2x'') \<and>
   \<not> tidy (clean_text (ustr ''a Page 1 b'')) \<and>
   clean_text (clean_text (ustr ''a Page 1 b'')) \<noteq> clean_text (ustr ''a Page 1 b'')"
  using clean_text_idempotent_iff [of "ustr ''a  -  b Page'' @ [10] @ ustr ''2x''"]
    clean_text_idempotent_iff [of "ustr ''a Page 1 b''"]
  by (simp add: clean_eval tidy_def)

text \<open>
  C10. Every character of a cleaned text is in 0x20..0x7E; so is every character of the
  text that reaches the two quotation-mark substitutions, which therefore change
  nothing.
\<close>

theorem clean_text_printable:
  "(\<forall>c \<in> set (clean_text s). 32 \<le> c \<and> c \<le> 126) \<and>
   (\<forall>c \<in> set (before_quotes s). 32 \<le> c \<and> c \<le> 126) \<and>
   sub_single_quotes (sub_double_quotes (before_quotes s)) = before_quotes s"
  using printable_clean_text [of s] printable_before_quotes [of s]
  by (simp add: list_all_iff printable_def sub_double_quotes_printable sub_single_quotes_printable)

theorem clean_text_printable_witness:
  "clean_text (ustr ''Hi '' @ [8220] @ ustr ''you'' @ [8221, 233]) = ustr ''Hi  you'' \<and>
   before_quotes (ustr ''Hi '' @ [8220] @ ustr ''you'' @ [8221, 233]) = ustr ''Hi  you  '' \<and>
   72 \<in> set (clean_text (ustr ''Hi '' @ [8220] @ ustr ''you'' @ [8221, 233])) \<and>
   32 \<in> set (before_quotes (ustr ''Hi '' @ [8220] @ ustr ''you'' @ [8221, 233])) \<and>
   (32::nat) \<le> 72 \<and> (72::nat) \<le> 126 \<and>
   sub_single_quotes (sub_double_quotes (before_quotes (ustr ''Hi '' @ [8220] @ ustr ''you'' @ [8221, 233])))
     = before_quotes (ustr ''Hi '' @ [8220] @ ustr ''you'' @ [8221, 233])"
  using clean_text_printable [of "ustr ''Hi '' @ [8220] @ ustr ''you'' @ [8221, 233]"]
  by (simp add: clean_eval)

section \<open>The claims about the pipeline\<close>

text \<open>
  The synthesis loop leaves one segment for each chunk, so it ends with no segment only
  when there is no chunk, and the chunker returns no chunk only on the empty text.
\<close>

lemma synthesize_length:
  "synthesize e language chunks acc = Inr segments \<Longrightarrow>
     length segments = length acc + length chunks"
proof (induction chunks arbitrary: acc)
  case Nil
  then show ?case by simp
next
  case (Cons chunk chunks)
  from Cons.prems obtain segment where
    "synthesize e language chunks (acc @ [segment]) = Inr segments"
    by (auto split: sum.splits prod.splits if_splits)
  from Cons.IH [OF this] show ?case by simp
qed

lemma split_text_empty: "split_text [] m = Some []"
  by (simp add: split_text_def split_loop.simps)

lemma split_text_no_chunks:
  assumes "split_text s 1000 = Some []"
  shows "s = []"
proof -
  obtain cs gs where "split_loop [] s 1000 = Some ([] @ cs)" and "length gs = length cs"
    and "s = weave cs gs"
    using split_loop_weave [of 1000 "[]" s] by auto
  with assms show ?thesis
    by (simp add: split_text_def)
qed

text \<open>
  C6. With no audio segment to assemble the assembly raises (the \<open>IndexError\<close> of
  \<open>audio_segments[0]\<close>) and exports nothing. So, whenever the synthesis loop of
  \<open>convert_text_to_speech\<close> ends with no segment, the function raises
  \<open>RuntimeError\<close> with the message of that error and no file is exported; and when the
  text gives no chunk at all the function raises \<open>RuntimeError\<close> and exports nothing in
  every environment.
\<close>

theorem convert_text_to_speech_no_segments:
  "assemble e out_path [] = (Inl (IndexError (ustr ''list index out of range'')), []) \<and>
   (split_text text 1000 = Some chunks \<and> ffmpeg_available e \<and> progress_window e = None \<and>
    synthesize e language chunks [] = Inr [] \<longrightarrow>
      convert_text_to_speech e text out_path language =
        Some (Inl (RuntimeError (ustr ''Text-to-speech conversion failed: list index out of range'')), [])) \<and>
   (split_text text 1000 = Some [] \<longrightarrow>
      (\<exists>m. convert_text_to_speech e text out_path language = Some (Inl (RuntimeError m), [])))"
proof (intro conjI impI)
  show a: "assemble e out_path [] = (Inl (IndexError (ustr ''list index out of range'')), [])"
    by (simp add: assemble_def)
  {
    assume "split_text text 1000 = Some chunks \<and> ffmpeg_available e \<and> progress_window e = None \<and>
      synthesize e language chunks [] = Inr []"
    then show "convert_text_to_speech e text out_path language =
        Some (Inl (RuntimeError (ustr ''Text-to-speech conversion failed: list index out of range'')), [])"
      using a by (simp add: convert_text_to_speech_def reraise_def ustr_def)
  }
  {
    assume none: "split_text text 1000 = Some []"
    show "\<exists>m. convert_text_to_speech e text out_path language = Some (Inl (RuntimeError m), [])"
    proof (cases "ffmpeg_available e")
      case False
      then show ?thesis
        by (simp add: convert_text_to_speech_def reraise_def)
    next
      case True
      show ?thesis
      proof (cases "progress_window e")
        case (Some x)
        with True none show ?thesis
          by (simp add: convert_text_to_speech_def reraise_def)
      next
        case None
        with True none a show ?thesis
          by (simp add: convert_text_to_speech_def reraise_def)
      qed
    qed
  }
qed

theorem convert_text_to_speech_no_segments_witness:
  "split_text [] 1000 = Some [] \<and>
   ffmpeg_available working_env \<and> progress_window working_env = None \<and>
   synthesize working_env (ustr ''en'') [] [] = Inr [] \<and>
   convert_text_to_speech working_env [] (ustr ''out.mp3'') (ustr ''en'') =
     Some (Inl (RuntimeError (ustr ''Text-to-speech conversion failed: list index out of range'')), [])"
  using convert_text_to_speech_no_segments
    [of working_env "ustr ''out.mp3''" "[]" "[]" "ustr ''en''"]
  by (auto simp: split_text_empty working_env_def)

text \<open>
  C7. When the PDF exists and the extraction returns the empty text,
  \<open>convert_pdf_to_speech\<close> returns \<open>False\<close> with the message that no text was
  extracted: the body of its \<open>try\<close> returns this value itself, no exception is raised,
  and nothing is exported.
\<close>

theorem convert_pdf_to_speech_empty_extraction:
  assumes "path_exists e pdf" and "extract_text_from_pdf e pdf = Inr []"
  shows "convert_pdf_body e pdf out_path language =
      Some (Inr (False, ustr ''No text extracted from PDF. The file may be scanned or image-based.''), []) \<and>
    convert_pdf_to_speech e pdf out_path language =
      Some ((False, ustr ''No text extracted from PDF. The file may be scanned or image-based.''), [])"
  using assms by (simp add: convert_pdf_to_speech_def convert_pdf_body_def)

theorem convert_pdf_to_speech_empty_extraction_witness:
  "path_exists scanned_env (ustr ''scan.pdf'') \<and>
   extract_text_from_pdf scanned_env (ustr ''scan.pdf'') = Inr [] \<and>
   convert_pdf_to_speech scanned_env (ustr ''scan.pdf'') (ustr ''out.mp3'') (ustr ''en'') =
     Some ((False, ustr ''No text extracted from PDF. The file may be scanned or image-based.''), [])"
proof -
  have h: "path_exists scanned_env (ustr ''scan.pdf'')"
    "extract_text_from_pdf scanned_env (ustr ''scan.pdf'') = Inr []"
    by (simp_all add: scanned_env_def working_env_def extract_text_from_pdf_def)
  from convert_pdf_to_speech_empty_extraction [OF h] h show ?thesis by simp
qed

text \<open>The definitions that a run of the command line on \<open>working_env\<close> unfolds.\<close>

lemmas pipe_eval = main_cli_def convert_pdf_to_speech_def convert_pdf_body_def
  convert_text_to_speech_def reraise_def assemble_def extract_text_from_pdf_def working_env_def

lemma clean_hi: "clean_text (ustr ''Hi there.'' @ [10]) = ustr ''Hi there.''"
  by (simp add: clean_eval)

lemma split_hi: "split_text (ustr ''Hi there.'') 1000 = Some [ustr ''Hi there.'']"
  by (simp add: split_loop.simps split_text_def ustr_def)

lemma hi_nonempty: "ustr ''Hi there.'' \<noteq> []"
  by (simp add: ustr_def)

text \<open>
  C8. \<open>main_cli\<close> has no check of the range of \<open>--speed\<close>: with the arguments
  \<open>in.pdf out.mp3 -s 3.0\<close> in \<open>working_env\<close> the conversion is run and the speed
  adjustment is then run with the factor 3.
\<close>

theorem main_cli_speed_unchecked:
  "main_cli working_env
     \<lparr>pdf_file = ustr ''in.pdf'', output_file = ustr ''out.mp3'', lang = ustr ''en'', speed = 3\<rparr>
   = Some (Saved (Some 3) None)"
  by (simp add: pipe_eval clean_hi split_hi hi_nonempty)

end
